theory Spec2Isabelle
  imports Complex_Main "HOL-Library.Word" "HOL-Library.AList"
begin

section \<open>The bigram name generator of main.py\<close>

text \<open>
  The script is straight-line code over module-level variables. Each variable becomes a
  definition of the same name that takes the corpus \<open>words\<close> (the lines of names.txt) as
  its argument. Reading the file is outside the model: \<open>words\<close> is the list that
  \<^verbatim>\<open>read().splitlines()\<close> returns.
\<close>

subsection \<open>Characters, errors, dictionaries\<close>

text \<open>
  A Python \<^verbatim>\<open>str\<close> is a sequence of Unicode code points and \<^verbatim>\<open>sorted\<close> orders
  one-character strings by code point, so a character is its code point. The special
  token \<^verbatim>\<open>'^'\<close> is U+005E.
\<close>

type_synonym pychar = nat
type_synonym corpus = "pychar list list"

definition caret :: pychar where
  "caret = 94"

definition newline :: pychar where
  "newline = 10"

definition py_str :: "string \<Rightarrow> pychar list" where
  "py_str s = map of_char s"

datatype error = KeyError | IndexError | RuntimeError

text \<open>
  A \<^verbatim>\<open>dict\<close> keeps insertion order; assigning to a key that is present replaces the
  value where the key stands, assigning to a new key appends. That is \<open>AList.update\<close>.
  \<^verbatim>\<open>d[k]\<close> raises KeyError for a missing key.
\<close>

type_synonym ('k, 'v) dict = "('k \<times> 'v) list"

definition dict_set :: "('k, 'v) dict \<Rightarrow> 'k \<Rightarrow> 'v \<Rightarrow> ('k, 'v) dict" where
  "dict_set d k v = AList.update k v d"

definition dict_get :: "('k, 'v) dict \<Rightarrow> 'k \<Rightarrow> error + 'v" where
  "dict_get d k = (case map_of d k of None \<Rightarrow> Inl KeyError | Some v \<Rightarrow> Inr v)"

subsection \<open>Steps 2 and 3: vocabulary\<close>

text \<open>\<^verbatim>\<open>characters = sorted(list(set("".join(words))))\<close>\<close>

definition characters :: "corpus \<Rightarrow> pychar list" where
  "characters words = sort (remdups (concat words))"

text \<open>\<^verbatim>\<open>vocab_size = len(characters) + 1\<close>\<close>

definition vocab_size :: "corpus \<Rightarrow> nat" where
  "vocab_size words = length (characters words) + 1"

text \<open>
  \<^verbatim>\<open>stoi = { s: i+1 for i, s in enumerate(characters) }\<close> followed by
  \<^verbatim>\<open>stoi['^'] = 0\<close>.
\<close>

definition stoi :: "corpus \<Rightarrow> (pychar, nat) dict" where
  "stoi words =
     dict_set (map (\<lambda>(i, s). (s, i + 1)) (enumerate 0 (characters words))) caret 0"

text \<open>\<^verbatim>\<open>itos = { i: s for s, i in stoi.items() }\<close>\<close>

definition itos :: "corpus \<Rightarrow> (nat, pychar) dict" where
  "itos words = foldl (\<lambda>d (s, i). dict_set d i s) [] (stoi words)"

subsection \<open>Step 4: the count matrix\<close>

text \<open>
  \<^verbatim>\<open>torch.zeros((vocab_size, vocab_size), dtype=torch.int32)\<close>: the cells are 32-bit
  two's complement integers, and \<^verbatim>\<open>+= 1\<close> on a cell wraps around. A cell is a
  \<open>32 word\<close>, read with \<open>sint\<close>.
\<close>

type_synonym int32 = "32 word"
type_synonym matrix = "int32 list list"

definition zeros :: "nat \<Rightarrow> nat \<Rightarrow> matrix" where
  "zeros r c = replicate r (replicate c 0)"

text \<open>
  \<^verbatim>\<open>bigram_counts[ix1][ix2] += 1\<close>. Both indices come from \<open>stoi\<close> and are not negative;
  an index past the end raises IndexError.
\<close>

definition increment :: "matrix \<Rightarrow> nat \<Rightarrow> nat \<Rightarrow> error + matrix" where
  "increment M ix1 ix2 =
     (if ix1 < length M then
        (if ix2 < length (M ! ix1)
         then Inr (M[ix1 := (M ! ix1)[ix2 := (M ! ix1) ! ix2 + 1]])
         else Inl IndexError)
      else Inl IndexError)"

text \<open>\<^verbatim>\<open>padded_name = ['^'] + list(name) + ['^']\<close>\<close>

definition padded_name :: "pychar list \<Rightarrow> pychar list" where
  "padded_name name = [caret] @ name @ [caret]"

text \<open>\<^verbatim>\<open>zip(padded_name, padded_name[1:])\<close>\<close>

definition bigrams :: "pychar list \<Rightarrow> (pychar \<times> pychar) list" where
  "bigrams name = zip (padded_name name) (drop 1 (padded_name name))"

text \<open>The inner loop, over the pairs of one name.\<close>

fun count_pairs ::
  "(pychar, nat) dict \<Rightarrow> (pychar \<times> pychar) list \<Rightarrow> matrix \<Rightarrow> error + matrix" where
  "count_pairs st [] M = Inr M"
| "count_pairs st ((ch1, ch2) # ps) M =
     (case dict_get st ch1 of
        Inl e \<Rightarrow> Inl e
      | Inr ix1 \<Rightarrow>
          (case dict_get st ch2 of
             Inl e \<Rightarrow> Inl e
           | Inr ix2 \<Rightarrow>
               (case increment M ix1 ix2 of
                  Inl e \<Rightarrow> Inl e
                | Inr M' \<Rightarrow> count_pairs st ps M')))"

text \<open>The outer loop, \<^verbatim>\<open>for name in words\<close>.\<close>

fun count_names :: "(pychar, nat) dict \<Rightarrow> corpus \<Rightarrow> matrix \<Rightarrow> error + matrix" where
  "count_names st [] M = Inr M"
| "count_names st (name # names) M =
     (case count_pairs st (bigrams name) M of
        Inl e \<Rightarrow> Inl e
      | Inr M' \<Rightarrow> count_names st names M')"

text \<open>The value of \<^verbatim>\<open>bigram_counts\<close> when the loop of step 4 is over.\<close>

definition bigram_counts :: "corpus \<Rightarrow> error + matrix" where
  "bigram_counts words =
     count_names (stoi words) words (zeros (vocab_size words) (vocab_size words))"

subsection \<open>Step 5: normalisation\<close>

text \<open>
  \<^verbatim>\<open>bigram_counts.float()\<close> and the division work on binary32 values. The special values
  of IEEE 754 are modelled as they are: a division by zero raises nothing, it yields an
  infinity, or NaN for 0/0. A finite value is represented by the exact rational it
  stands for: rounding to 24 significant bits and the sign of zero are not modelled, and
  no statement below depends on the digits of a finite quotient.
\<close>

datatype fval = Num rat | PosInf | NegInf | NaN

definition to_float :: "int32 \<Rightarrow> fval" where
  "to_float c = Num (of_int (sint c))"

fun fadd :: "fval \<Rightarrow> fval \<Rightarrow> fval" where
  "fadd (Num a) (Num b) = Num (a + b)"
| "fadd NaN _ = NaN"
| "fadd _ NaN = NaN"
| "fadd PosInf NegInf = NaN"
| "fadd NegInf PosInf = NaN"
| "fadd PosInf PosInf = PosInf"
| "fadd PosInf (Num b) = PosInf"
| "fadd (Num a) PosInf = PosInf"
| "fadd NegInf NegInf = NegInf"
| "fadd NegInf (Num b) = NegInf"
| "fadd (Num a) NegInf = NegInf"

fun fdiv :: "fval \<Rightarrow> fval \<Rightarrow> fval" where
  "fdiv (Num a) (Num b) =
     (if b = 0 then (if a = 0 then NaN else if 0 < a then PosInf else NegInf)
      else Num (a / b))"
| "fdiv NaN _ = NaN"
| "fdiv _ NaN = NaN"
| "fdiv (Num a) PosInf = Num 0"
| "fdiv (Num a) NegInf = Num 0"
| "fdiv PosInf (Num b) = (if 0 \<le> b then PosInf else NegInf)"
| "fdiv NegInf (Num b) = (if 0 \<le> b then NegInf else PosInf)"
| "fdiv PosInf PosInf = NaN"
| "fdiv PosInf NegInf = NaN"
| "fdiv NegInf PosInf = NaN"
| "fdiv NegInf NegInf = NaN"

text \<open>\<^verbatim>\<open>row.sum()\<close>, the reduction behind \<^verbatim>\<open>sum(1, keepdim=True)\<close>.\<close>

definition fsum :: "fval list \<Rightarrow> fval" where
  "fsum row = foldl fadd (Num 0) row"

text \<open>
  \<^verbatim>\<open>bigram_counts / bigram_counts.sum(1, keepdim=True)\<close>: each cell of a row is divided
  by the sum of that row.
\<close>

definition row_normalize :: "matrix \<Rightarrow> fval list list" where
  "row_normalize M =
     map (\<lambda>row. map (\<lambda>c. fdiv c (fsum (map to_float row))) (map to_float row)) M"

definition normalized_bigram_counts :: "corpus \<Rightarrow> error + fval list list" where
  "normalized_bigram_counts words =
     (case bigram_counts words of Inl e \<Rightarrow> Inl e | Inr M \<Rightarrow> Inr (row_normalize M))"

subsection \<open>Step 6: sampling\<close>

text \<open>
  \<^verbatim>\<open>torch.multinomial(probs, 1, replacement=True)\<close> is library code. Before it draws it
  checks its argument: a weight that is NaN, infinite or negative is refused, and so is
  a row whose weights sum to zero; both raise RuntimeError. The index it returns and the
  state the random generator is left in are given by \<open>draw\<close>, a parameter that stands
  for torch's generator: a function of the generator state and the weights.
\<close>

fun invalid :: "fval \<Rightarrow> bool" where
  "invalid (Num a) = (a < 0)"
| "invalid PosInf = True"
| "invalid NegInf = True"
| "invalid NaN = True"

definition multinomial ::
  "('g \<Rightarrow> fval list \<Rightarrow> nat \<times> 'g) \<Rightarrow> fval list \<Rightarrow> 'g \<Rightarrow> error + nat \<times> 'g" where
  "multinomial draw probs g =
     (if list_ex invalid probs then Inl RuntimeError
      else if fsum probs = Num 0 then Inl RuntimeError
      else Inr (draw g probs))"

text \<open>
  The state of the \<^verbatim>\<open>while True\<close> loop: the variable \<^verbatim>\<open>sampled_index\<close>, the random
  generator, what has been printed, and whether the loop is still running, has left
  through \<^verbatim>\<open>break\<close>, or has been left by an exception.
\<close>

datatype status = Running | Halted | Raised error

record 'g config =
  sampled_index :: nat
  generator :: 'g
  stdout :: "pychar list"
  status :: status

text \<open>\<^verbatim>\<open>sampled_index = 0\<close>, nothing printed yet.\<close>

definition start :: "'g \<Rightarrow> 'g config" where
  "start g = \<lparr>sampled_index = 0, generator = g, stdout = [], status = Running\<rparr>"

text \<open>
  One pass through the loop body, one rule for each way through it:
  \<^item> \<^verbatim>\<open>normalized_bigram_counts[sampled_index]\<close> has no such row;
  \<^item> \<^verbatim>\<open>torch.multinomial\<close> refuses the row;
  \<^item> \<^verbatim>\<open>itos[sampled_index]\<close> has no such key;
  \<^item> the symbol drawn is \<^verbatim>\<open>'^'\<close>: \<^verbatim>\<open>print()\<close> and \<^verbatim>\<open>break\<close>;
  \<^item> any other symbol: \<^verbatim>\<open>print(itos[sampled_index], end="")\<close> and go round again.
\<close>

inductive iteration ::
  "('g \<Rightarrow> fval list \<Rightarrow> nat \<times> 'g) \<Rightarrow> fval list list \<Rightarrow> (nat, pychar) dict \<Rightarrow>
     'g config \<Rightarrow> 'g config \<Rightarrow> bool"
  for draw :: "'g \<Rightarrow> fval list \<Rightarrow> nat \<times> 'g" and P :: "fval list list"
    and it :: "(nat, pychar) dict" where
  no_row:
    "status c = Running \<Longrightarrow> \<not> sampled_index c < length P \<Longrightarrow>
     iteration draw P it c (c\<lparr>status := Raised IndexError\<rparr>)"
| refused:
    "status c = Running \<Longrightarrow> sampled_index c < length P \<Longrightarrow>
     multinomial draw (P ! sampled_index c) (generator c) = Inl e \<Longrightarrow>
     iteration draw P it c (c\<lparr>status := Raised e\<rparr>)"
| no_symbol:
    "status c = Running \<Longrightarrow> sampled_index c < length P \<Longrightarrow>
     multinomial draw (P ! sampled_index c) (generator c) = Inr (ix, g') \<Longrightarrow>
     dict_get it ix = Inl e \<Longrightarrow>
     iteration draw P it c (c\<lparr>sampled_index := ix, generator := g', status := Raised e\<rparr>)"
| end_symbol:
    "status c = Running \<Longrightarrow> sampled_index c < length P \<Longrightarrow>
     multinomial draw (P ! sampled_index c) (generator c) = Inr (ix, g') \<Longrightarrow>
     dict_get it ix = Inr s \<Longrightarrow> s = caret \<Longrightarrow>
     iteration draw P it c
       (c\<lparr>sampled_index := ix, generator := g', stdout := stdout c @ [newline],
          status := Halted\<rparr>)"
| emit:
    "status c = Running \<Longrightarrow> sampled_index c < length P \<Longrightarrow>
     multinomial draw (P ! sampled_index c) (generator c) = Inr (ix, g') \<Longrightarrow>
     dict_get it ix = Inr s \<Longrightarrow> s \<noteq> caret \<Longrightarrow>
     iteration draw P it c
       (c\<lparr>sampled_index := ix, generator := g', stdout := stdout c @ [s]\<rparr>)"

text \<open>
  The whole script: \<open>script draw words g c\<close> holds when a run on the corpus \<open>words\<close>,
  with the generator in state \<open>g\<close> at the start of step 6, passes through the
  configuration \<open>c\<close>. An exception in steps 2 to 5 would end the run before the loop.
\<close>

definition script ::
  "('g \<Rightarrow> fval list \<Rightarrow> nat \<times> 'g) \<Rightarrow> corpus \<Rightarrow> 'g \<Rightarrow> 'g config \<Rightarrow> bool" where
  "script draw words g c =
     (case normalized_bigram_counts words of
        Inl e \<Rightarrow> c = (start g)\<lparr>status := Raised e\<rparr>
      | Inr P \<Rightarrow> (iteration draw P (itos words))\<^sup>*\<^sup>* (start g) c)"

text \<open>
  A generator for concrete runs: its state is the list of the indices it will hand out,
  in order.
\<close>

fun replay :: "nat list \<Rightarrow> fval list \<Rightarrow> nat \<times> nat list" where
  "replay [] probs = (0, [])"
| "replay (ix # g) probs = (ix, g)"

subsection \<open>Quantities the properties speak about\<close>

text \<open>The sum of all cells of a count matrix, each cell read as a signed integer.\<close>

definition cells_total :: "matrix \<Rightarrow> int" where
  "cells_total M = sum_list (map (\<lambda>row. sum_list (map sint row)) M)"

text \<open>
  The number of times the body of the inner loop runs: a name of length \<open>n\<close> is padded
  to \<open>n + 2\<close> symbols, which gives \<open>n + 1\<close> pairs.
\<close>

definition bigram_total :: "corpus \<Rightarrow> nat" where
  "bigram_total words = sum_list (map (\<lambda>name. length name + 1) words)"

text \<open>An \<open>n\<close> by \<open>n\<close> matrix, and a matrix without a negative cell.\<close>

definition square :: "nat \<Rightarrow> matrix \<Rightarrow> bool" where
  "square n M \<longleftrightarrow> length M = n \<and> list_all (\<lambda>row. length row = n) M"

definition nonneg :: "matrix \<Rightarrow> bool" where
  "nonneg M \<longleftrightarrow> list_all (list_all (\<lambda>c. 0 \<le> sint c)) M"

text \<open>
  \<open>stoi\<close> read as a function on its keys is one-to-one and onto the indices below
  \<open>vocab_size\<close>.
\<close>

definition stoi_bijective :: "corpus \<Rightarrow> bool" where
  "stoi_bijective words \<longleftrightarrow>
     bij_betw (\<lambda>s. the (map_of (stoi words) s)) (dom (map_of (stoi words)))
       {0..<vocab_size words}"

section \<open>Properties\<close>

subsection \<open>The vocabulary\<close>

lemma set_characters: "set (characters words) = set (concat words)"
  by (simp add: characters_def)

lemma distinct_characters: "distinct (characters words)"
  by (simp add: characters_def)

lemma swap_zip: "map (\<lambda>(i, s). (s, Suc i)) (zip ns cs) = zip cs (map Suc ns)"
proof (induction ns arbitrary: cs)
  case Nil
  then show ?case by simp
next
  case (Cons n ns)
  then show ?case by (cases cs) simp_all
qed

lemma map_of_stoi:
  "map_of (stoi words) =
     (map_of (zip (characters words) (map Suc [0..<length (characters words)])))(caret \<mapsto> 0)"
  by (simp add: stoi_def dict_set_def update_conv' enumerate_eq_zip swap_zip)

lemma dom_stoi: "dom (map_of (stoi words)) = insert caret (set (concat words))"
  by (simp add: map_of_stoi set_characters)

lemma stoi_caret: "map_of (stoi words) caret = Some 0"
  by (simp add: map_of_stoi)

lemma stoi_nth:
  assumes "i < length (characters words)" and "characters words ! i \<noteq> caret"
  shows "map_of (stoi words) (characters words ! i) = Some (i + 1)"
proof -
  have "map_of (zip (characters words) (map Suc [0..<length (characters words)])) (characters words ! i)
          = Some (map Suc [0..<length (characters words)] ! i)"
    using assms(1) by (intro map_of_zip_nth) (simp_all add: distinct_characters)
  with assms show ?thesis
    by (simp add: map_of_stoi)
qed

lemma stoi_range:
  assumes "map_of (stoi words) s = Some i"
  shows "i < vocab_size words"
proof (cases "s = caret")
  case True
  with assms show ?thesis by (simp add: map_of_stoi vocab_size_def)
next
  case False
  with assms have "map_of (zip (characters words) (map Suc [0..<length (characters words)])) s = Some i"
    by (simp add: map_of_stoi)
  then have "i \<in> set (map Suc [0..<length (characters words)])"
    by (meson in_set_zipE map_of_SomeD)
  then show ?thesis by (auto simp: vocab_size_def)
qed

lemma stoi_pos:
  assumes "map_of (stoi words) s = Some i" and "s \<noteq> caret"
  shows "0 < i"
proof -
  from assms have "map_of (zip (characters words) (map Suc [0..<length (characters words)])) s = Some i"
    by (simp add: map_of_stoi)
  then have "i \<in> set (map Suc [0..<length (characters words)])"
    by (meson in_set_zipE map_of_SomeD)
  then show ?thesis by auto
qed

lemma dict_get_stoi:
  assumes "s = caret \<or> s \<in> set (concat words)"
  shows "\<exists>i. dict_get (stoi words) s = Inr i \<and> i < vocab_size words"
proof -
  from assms have "s \<in> dom (map_of (stoi words))"
    by (auto simp: dom_stoi)
  then obtain i where "map_of (stoi words) s = Some i"
    by auto
  then show ?thesis
    using stoi_range by (auto simp: dict_get_def)
qed








lemma stoi_bij_betw:
  assumes "caret \<notin> set (concat words)"
  shows "bij_betw (\<lambda>s. the (map_of (stoi words) s)) (insert caret (set (concat words)))
           {0..<vocab_size words}"
proof -
  let ?cs = "characters words" and ?f = "\<lambda>s. the (map_of (stoi words) s)"
  from assms have nocaret: "caret \<notin> set ?cs"
    by (simp add: set_characters)
  have nth: "?f (?cs ! i) = i + 1" if "i < length ?cs" for i
    using that nocaret stoi_nth [of i words] by (metis nth_mem option.sel)
  have zero: "?f caret = 0"
    by (simp add: stoi_caret)
  have "inj_on ?f (insert caret (set ?cs))"
  proof (rule inj_onI)
    fix s t
    assume s: "s \<in> insert caret (set ?cs)" and t: "t \<in> insert caret (set ?cs)"
      and eq: "?f s = ?f t"
    show "s = t"
    proof (cases "s = caret")
      case True
      show ?thesis
      proof (cases "t = caret")
        case True
        with \<open>s = caret\<close> show ?thesis by simp
      next
        case False
        with t obtain j where "j < length ?cs" "t = ?cs ! j"
          by (auto simp: in_set_conv_nth)
        with nth [of j] zero eq \<open>s = caret\<close> show ?thesis by simp
      qed
    next
      case False
      with s obtain i where i: "i < length ?cs" "s = ?cs ! i"
        by (auto simp: in_set_conv_nth)
      show ?thesis
      proof (cases "t = caret")
        case True
        with nth [of i] i zero eq show ?thesis by simp
      next
        case False
        with t obtain j where j: "j < length ?cs" "t = ?cs ! j"
          by (auto simp: in_set_conv_nth)
        with nth [of i] nth [of j] i eq have "i = j" by simp
        with i j show ?thesis by simp
      qed
    qed
  qed
  moreover have "?f ` insert caret (set ?cs) = {0..<vocab_size words}"
  proof (rule set_eqI)
    fix k
    show "k \<in> ?f ` insert caret (set ?cs) \<longleftrightarrow> k \<in> {0..<vocab_size words}"
    proof
      assume "k \<in> ?f ` insert caret (set ?cs)"
      then obtain s where s: "s \<in> insert caret (set ?cs)" "k = ?f s"
        by blast
      show "k \<in> {0..<vocab_size words}"
      proof (cases "s = caret")
        case True
        with s zero show ?thesis by (simp add: vocab_size_def)
      next
        case False
        with s obtain i where "i < length ?cs" "s = ?cs ! i"
          by (auto simp: in_set_conv_nth)
        with nth [of i] s show ?thesis by (simp add: vocab_size_def)
      qed
    next
      assume k: "k \<in> {0..<vocab_size words}"
      show "k \<in> ?f ` insert caret (set ?cs)"
      proof (cases k)
        case 0
        with zero show ?thesis by (metis imageI insertI1)
      next
        case (Suc i)
        with k have i: "i < length ?cs"
          by (simp add: vocab_size_def)
        with nth [of i] Suc have "k = ?f (?cs ! i)" by simp
        with i show ?thesis by (metis imageI insertI2 nth_mem)
      qed
    qed
  qed
  ultimately show ?thesis
    by (simp add: bij_betw_def set_characters)
qed

lemma vocab_size_card: "vocab_size words = card (set (concat words)) + 1"
  using distinct_card [OF distinct_characters, of words]
  by (simp add: vocab_size_def set_characters)

subsection \<open>The counting loop\<close>

lemma square_zeros: "square n (zeros n n)"
  by (simp add: square_def zeros_def list_all_iff)

lemma nonneg_zeros: "nonneg (zeros r c)"
  by (simp add: nonneg_def zeros_def list_all_iff)

lemma cells_total_zeros: "cells_total (zeros r c) = 0"
  by (simp add: cells_total_def zeros_def sum_list_replicate)

lemma square_row: "square n M \<Longrightarrow> i < n \<Longrightarrow> length (M ! i) = n"
  by (auto simp: square_def list_all_length)

lemma increment_square:
  assumes "square n M" and "ix1 < n" and "ix2 < n"
  shows "\<exists>M'. increment M ix1 ix2 = Inr M' \<and> square n M'"
proof -
  let ?M' = "M[ix1 := (M ! ix1)[ix2 := (M ! ix1) ! ix2 + 1]]"
  from assms have "increment M ix1 ix2 = Inr ?M'"
    by (simp add: increment_def square_row) (simp add: square_def)
  moreover from assms have "square n ?M'"
    by (auto simp: square_def list_all_length nth_list_update)
  ultimately show ?thesis by blast
qed

lemma sum_list_update_int:
  fixes xs :: "int list"
  shows "j < length xs \<Longrightarrow> sum_list (xs[j := v]) = sum_list xs - xs ! j + v"
proof (induction xs arbitrary: j)
  case Nil
  then show ?case by simp
next
  case (Cons x xs)
  then show ?case by (cases j) simp_all
qed

lemma nth_le_sum_list_int:
  fixes xs :: "int list"
  assumes "list_all (\<lambda>x. 0 \<le> x) xs" and "j < length xs"
  shows "xs ! j \<le> sum_list xs"
  using assms by (intro member_le_sum_list) (auto simp: list_all_iff)

lemma sint_succ:
  fixes c :: int32
  assumes "0 \<le> sint c" and "sint c < 2 ^ 31 - 1"
  shows "sint (c + 1) = sint c + 1"
proof -
  have "sint (c + 1) = signed_take_bit 31 (sint c + 1)"
    by (simp add: sint_word_ariths)
  also have "\<dots> = sint c + 1"
    using assms by (intro signed_take_bit_int_eq_self) simp_all
  finally show ?thesis .
qed

lemma cell_le_total:
  assumes "nonneg M" and "ix1 < length M" and "ix2 < length (M ! ix1)"
  shows "sint (M ! ix1 ! ix2) \<le> cells_total M"
proof -
  let ?rows = "map (\<lambda>row. sum_list (map sint row)) M"
  from assms(1,2) have row: "list_all (\<lambda>c. 0 \<le> sint c) (M ! ix1)"
    by (simp add: nonneg_def list_all_length)
  then have "list_all (\<lambda>x. 0 \<le> x) (map sint (M ! ix1))"
    by (simp add: list_all_iff)
  with assms(3) have "map sint (M ! ix1) ! ix2 \<le> sum_list (map sint (M ! ix1))"
    by (intro nth_le_sum_list_int) simp_all
  with assms(3) have a: "sint (M ! ix1 ! ix2) \<le> sum_list (map sint (M ! ix1))"
    by simp
  from assms(1) have "list_all (\<lambda>x. 0 \<le> x) ?rows"
    by (auto simp: nonneg_def list_all_iff intro!: sum_list_nonneg)
  with assms(2) have "?rows ! ix1 \<le> sum_list ?rows"
    by (intro nth_le_sum_list_int) simp_all
  with assms(2) have "sum_list (map sint (M ! ix1)) \<le> cells_total M"
    by (simp add: cells_total_def)
  with a show ?thesis by linarith
qed

lemma increment_total:
  assumes inc: "increment M ix1 ix2 = Inr M'"
    and nn: "nonneg M" and small: "cells_total M < 2 ^ 31 - 1"
  shows "nonneg M' \<and> cells_total M' = cells_total M + 1"
proof -
  from inc have i1: "ix1 < length M" and i2: "ix2 < length (M ! ix1)"
    and M': "M' = M[ix1 := (M ! ix1)[ix2 := (M ! ix1) ! ix2 + 1]]"
    by (auto simp: increment_def split: if_splits)
  let ?c = "M ! ix1 ! ix2"
  from nn i1 i2 have c0: "0 \<le> sint ?c"
    by (simp add: nonneg_def list_all_length)
  from nn i1 i2 small have "sint ?c < 2 ^ 31 - 1"
    using cell_le_total [of M ix1 ix2] by linarith
  with c0 have succ: "sint (?c + 1) = sint ?c + 1"
    by (rule sint_succ)
  have "nonneg M'"
    using nn i1 i2 c0 succ unfolding M' nonneg_def list_all_length
    by (auto simp: nth_list_update)
  moreover have "cells_total M' = cells_total M + 1"
  proof -
    have "sum_list (map sint ((M ! ix1)[ix2 := ?c + 1]))
            = sum_list (map sint (M ! ix1)) + 1"
      using i2 succ by (simp add: map_update sum_list_update_int)
    then show ?thesis
      using i1 unfolding M' cells_total_def
      by (simp add: map_update sum_list_update_int)
  qed
  ultimately show ?thesis by simp
qed

lemma count_pairs_total:
  assumes "count_pairs st ps M = Inr M'" and "nonneg M"
    and "cells_total M + int (length ps) < 2 ^ 31"
  shows "nonneg M' \<and> cells_total M' = cells_total M + int (length ps)"
  using assms
proof (induction ps arbitrary: M)
  case Nil
  then show ?case by simp
next
  case (Cons p ps)
  obtain ch1 ch2 where p: "p = (ch1, ch2)" by (cases p)
  from Cons.prems(1) obtain ix1 ix2 M1 where
    inc: "increment M ix1 ix2 = Inr M1" and rest: "count_pairs st ps M1 = Inr M'"
    by (auto simp: p split: sum.splits)
  from Cons.prems(3) have "cells_total M < 2 ^ 31 - 1" by simp
  with inc Cons.prems(2) have M1: "nonneg M1" "cells_total M1 = cells_total M + 1"
    using increment_total by blast+
  with Cons.prems(3) have "cells_total M1 + int (length ps) < 2 ^ 31" by simp
  with Cons.IH [OF rest M1(1)] M1(2) show ?case by simp
qed

lemma length_bigrams: "length (bigrams name) = length name + 1"
  by (simp add: bigrams_def padded_name_def)

lemma count_names_total:
  assumes "count_names st names M = Inr M'" and "nonneg M"
    and "cells_total M + int (bigram_total names) < 2 ^ 31"
  shows "nonneg M' \<and> cells_total M' = cells_total M + int (bigram_total names)"
  using assms
proof (induction names arbitrary: M)
  case Nil
  then show ?case by (simp add: bigram_total_def)
next
  case (Cons name names)
  from Cons.prems(1) obtain M1 where
    one: "count_pairs st (bigrams name) M = Inr M1" and rest: "count_names st names M1 = Inr M'"
    by (auto split: sum.splits)
  have split: "bigram_total (name # names) = length (bigrams name) + bigram_total names"
    by (simp add: bigram_total_def length_bigrams)
  with Cons.prems(3) have "cells_total M + int (length (bigrams name)) < 2 ^ 31" by simp
  with one Cons.prems(2) have M1: "nonneg M1"
    "cells_total M1 = cells_total M + int (length (bigrams name))"
    using count_pairs_total by blast+
  with Cons.prems(3) split have "cells_total M1 + int (bigram_total names) < 2 ^ 31" by simp
  with Cons.IH [OF rest M1(1)] M1(2) split show ?case by simp
qed

lemma set_bigrams: "set (bigrams name) \<subseteq> insert caret (set name) \<times> insert caret (set name)"
proof
  fix p
  assume p: "p \<in> set (bigrams name)"
  obtain ch1 ch2 where eq: "p = (ch1, ch2)" by (cases p)
  from p have "ch1 \<in> set (padded_name name)"
    unfolding bigrams_def eq by (rule set_zip_leftD)
  moreover from p have "ch2 \<in> set (drop 1 (padded_name name))"
    unfolding bigrams_def eq by (rule set_zip_rightD)
  then have "ch2 \<in> set (padded_name name)"
    by (rule in_set_dropD)
  ultimately show "p \<in> insert caret (set name) \<times> insert caret (set name)"
    by (auto simp: padded_name_def eq)
qed

lemma count_pairs_square:
  assumes "square n M" and "set ps \<subseteq> S \<times> S"
    and known: "\<And>s. s \<in> S \<Longrightarrow> \<exists>ix. dict_get st s = Inr ix \<and> ix < n"
  shows "\<exists>M'. count_pairs st ps M = Inr M' \<and> square n M'"
  using assms(1,2)
proof (induction ps arbitrary: M)
  case Nil
  then show ?case by simp
next
  case (Cons p ps)
  obtain ch1 ch2 where p: "p = (ch1, ch2)" by (cases p)
  with Cons.prems(2) have "ch1 \<in> S" and "ch2 \<in> S" and rest: "set ps \<subseteq> S \<times> S"
    by auto
  with known obtain ix1 ix2 where
    ix1: "dict_get st ch1 = Inr ix1" "ix1 < n" and
    ix2: "dict_get st ch2 = Inr ix2" "ix2 < n"
    by blast
  from increment_square [OF Cons.prems(1) ix1(2) ix2(2)] obtain M1 where
    M1: "increment M ix1 ix2 = Inr M1" "square n M1" by blast
  from Cons.IH [OF M1(2) rest] show ?case
    by (simp add: p ix1(1) ix2(1) M1(1))
qed

lemma count_names_square:
  assumes "square (vocab_size words) M" and "set names \<subseteq> set words"
  shows "\<exists>M'. count_names (stoi words) names M = Inr M' \<and> square (vocab_size words) M'"
  using assms
proof (induction names arbitrary: M)
  case Nil
  then show ?case by simp
next
  case (Cons name names)
  let ?S = "insert caret (set (concat words))"
  from Cons.prems(2) have "set name \<subseteq> set (concat words)"
    by auto
  with set_bigrams [of name] have pairs: "set (bigrams name) \<subseteq> ?S \<times> ?S"
    by blast
  have "\<And>s. s \<in> ?S \<Longrightarrow> \<exists>ix. dict_get (stoi words) s = Inr ix \<and> ix < vocab_size words"
    using dict_get_stoi by blast
  from count_pairs_square [OF Cons.prems(1) pairs this] obtain M1 where
    M1: "count_pairs (stoi words) (bigrams name) M = Inr M1" "square (vocab_size words) M1"
    by blast
  from Cons.prems(2) have "set names \<subseteq> set words" by simp
  from Cons.IH [OF M1(2) this] show ?case
    by (simp add: M1(1))
qed

lemma bigram_counts_square:
  "\<exists>M. bigram_counts words = Inr M \<and> square (vocab_size words) M"
  unfolding bigram_counts_def
  by (rule count_names_square) (simp_all add: square_zeros)

lemma fsum_zeros: "foldl fadd (Num 0) (replicate n (Num 0)) = Num 0"
  by (induction n) simp_all

lemma zero_row:
  assumes "list_all (\<lambda>c. c = 0) row"
  shows "map to_float row = replicate (length row) (Num 0)"
  using assms by (induction row) (simp_all add: to_float_def)

lemma row_normalize_zero_row:
  assumes "i < length M" and "list_all (\<lambda>c. c = 0) (M ! i)"
  shows "row_normalize M ! i = replicate (length (M ! i)) NaN"
proof -
  let ?n = "length (M ! i)"
  from assms(2) have floats: "map to_float (M ! i) = replicate ?n (Num 0)"
    by (rule zero_row)
  from assms(1) have "row_normalize M ! i =
      map (\<lambda>c. fdiv c (fsum (map to_float (M ! i)))) (map to_float (M ! i))"
    by (simp add: row_normalize_def)
  also have "\<dots> = map (\<lambda>c. fdiv c (Num 0)) (replicate ?n (Num 0))"
    by (simp only: floats fsum_def fsum_zeros)
  also have "\<dots> = replicate ?n NaN"
    by simp
  finally show ?thesis .
qed

lemma length_row_normalize: "length (row_normalize M) = length M"
  by (simp add: row_normalize_def)

lemma multinomial_nan:
  assumes "0 < n"
  shows "multinomial draw (replicate n NaN) g = Inl RuntimeError"
  using assms by (cases n) (simp_all add: multinomial_def)

lemma replicate_empty_names:
  "count_names [(caret, 0)] (replicate n []) [[c]] = Inr [[c + of_nat n]]"
proof (induction n arbitrary: c)
  case 0
  then show ?case by simp
next
  case (Suc n)
  have "count_pairs [(caret, 0)] (bigrams []) [[c]] = Inr [[c + 1]]"
    by (simp add: bigrams_def padded_name_def dict_get_def increment_def)
  with Suc [of "c + 1"] show ?case
    by (simp add: add.assoc add.commute)
qed

lemma characters_empty_names: "characters (replicate n []) = []"
  by (simp add: characters_def)

lemma bigram_counts_empty_names:
  "bigram_counts (replicate n []) = Inr [[of_nat n]]"
  using replicate_empty_names [of n 0]
  by (simp add: bigram_counts_def stoi_def vocab_size_def characters_empty_names
      dict_set_def zeros_def)

lemma bigram_total_empty_names: "bigram_total (replicate n []) = n"
  by (simp add: bigram_total_def sum_list_replicate)

subsection \<open>The sampling loop\<close>

lemma iteration_unique:
  assumes "iteration draw P it c c1" and "iteration draw P it c c2"
  shows "c1 = c2"
  using assms by (auto elim!: iteration.cases)

lemma iteration_running: "iteration draw P it c c' \<Longrightarrow> status c = Running"
  by (auto elim: iteration.cases)

lemma iterations_unique:
  assumes "(iteration draw P it)\<^sup>*\<^sup>* c c1" and "(iteration draw P it)\<^sup>*\<^sup>* c c2"
    and "status c1 \<noteq> Running" and "status c2 \<noteq> Running"
  shows "c1 = c2"
  using assms
proof (induction rule: converse_rtranclp_induct)
  case base
  from base(1) show ?case
  proof (cases rule: converse_rtranclpE)
    case base
    then show ?thesis by simp
  next
    case (step y)
    with base(2) show ?thesis using iteration_running by blast 
  qed
next
  case (step c c')
  from step.prems(1) show ?case
  proof (cases rule: converse_rtranclpE)
    case base
    with step.hyps(1) step.prems(3) show ?thesis using iteration_running by blast 
  next
    case (step y)
    with \<open>iteration draw P it c c'\<close> have "y = c'"
      using iteration_unique by blast
    with step step.IH step.prems show ?thesis by blast
  qed
qed






lemma nan_row_refused:
  assumes run: "(iteration draw P it)\<^sup>*\<^sup>* c0 c"
    and c: "status c = Running" "sampled_index c < length P"
    and row: "P ! sampled_index c = replicate n NaN" and n: "0 < n"
  shows "(iteration draw P it)\<^sup>*\<^sup>* c0 (c\<lparr>status := Raised RuntimeError\<rparr>)"
proof -
  from row n have "multinomial draw (P ! sampled_index c) (generator c) = Inl RuntimeError"
    by (simp add: multinomial_nan)
  with c have "iteration draw P it c (c\<lparr>status := Raised RuntimeError\<rparr>)"
    by (rule iteration.refused)
  with run show ?thesis
    by (rule rtranclp.rtrancl_into_rtrancl)
qed

subsection \<open>A run on a small corpus\<close>

lemma normalized_al:
  "normalized_bigram_counts [py_str ''al''] =
     Inr [[Num 0, Num 1, Num 0], [Num 0, Num 0, Num 1], [Num 1, Num 0, Num 0]]"
  by code_simp

lemma itos_al: "itos [py_str ''al''] = [(1, 97), (2, 108), (0, 94)]"
  by code_simp

lemma weights_ok:
  "multinomial replay [Num 0, Num 1, Num 0] (ix # g) = Inr (ix, g)"
  "multinomial replay [Num 0, Num 0, Num 1] (ix # g) = Inr (ix, g)"
  "multinomial replay [Num 1, Num 0, Num 0] (ix # g) = Inr (ix, g)"
  by (simp_all add: multinomial_def fsum_def)

lemma run_al:
  "script replay [py_str ''al''] [1, 2, 0]
     \<lparr>sampled_index = 0, generator = [], stdout = [97, 108, 10], status = Halted\<rparr>"
proof -
  let ?P = "[[Num 0, Num 1, Num 0], [Num 0, Num 0, Num 1], [Num 1, Num 0, Num 0]]"
  let ?it = "[(1, 97), (2, 108), (0, 94)] :: (nat, pychar) dict"
  let ?c0 = "\<lparr>sampled_index = 0, generator = [1, 2, 0] :: nat list, stdout = [], status = Running\<rparr>"
  let ?c1 = "\<lparr>sampled_index = 1, generator = [2, 0] :: nat list, stdout = [97], status = Running\<rparr>"
  let ?c2 = "\<lparr>sampled_index = 2, generator = [0] :: nat list, stdout = [97, 108], status = Running\<rparr>"
  let ?c3 = "\<lparr>sampled_index = 0, generator = [] :: nat list, stdout = [97, 108, 10], status = Halted\<rparr>"
  have "iteration replay ?P ?it ?c0
          (?c0\<lparr>sampled_index := 1, generator := [2, 0], stdout := stdout ?c0 @ [97]\<rparr>)"
    by (rule iteration.emit [where s = 97]) (simp_all add: weights_ok dict_get_def caret_def)
  then have s1: "iteration replay ?P ?it ?c0 ?c1"
    by simp
  have "iteration replay ?P ?it ?c1
          (?c1\<lparr>sampled_index := 2, generator := [0], stdout := stdout ?c1 @ [108]\<rparr>)"
    by (rule iteration.emit [where s = 108]) (simp_all add: weights_ok dict_get_def caret_def)
  then have s2: "iteration replay ?P ?it ?c1 ?c2"
    by simp
  have "iteration replay ?P ?it ?c2
          (?c2\<lparr>sampled_index := 0, generator := [], stdout := stdout ?c2 @ [newline],
             status := Halted\<rparr>)"
    by (rule iteration.end_symbol [where s = 94]) (simp_all add: weights_ok dict_get_def caret_def)
  then have s3: "iteration replay ?P ?it ?c2 ?c3"
    by (simp add: newline_def)
  from s1 s2 s3 have "(iteration replay ?P ?it)\<^sup>*\<^sup>* ?c0 ?c3"
    by (rule converse_rtranclp_into_rtranclp [OF _ converse_rtranclp_into_rtranclp [OF _ r_into_rtranclp]])
  then show ?thesis
    by (simp add: script_def normalized_al itos_al start_def)
qed




section \<open>The claims\<close>

text \<open>
  C3 (as amended). When every cell of a row of the count matrix is 0, step 5 reports
  nothing: no exception is raised for any corpus, no uniform row is put in, and every
  cell of that row of the probability matrix is NaN, the value of 0.0/0.0. The row stays
  among the weights the sampling loop reads: whenever a run comes to a pass of the loop
  with \<^verbatim>\<open>sampled_index\<close> at such a row, that pass ends the run with the RuntimeError
  of \<^verbatim>\<open>torch.multinomial\<close>. Nothing is said of a row that no run reads.
\<close>

theorem zero_row_becomes_nan_row:
  "\<exists>M. bigram_counts words = Inr M \<and>
       normalized_bigram_counts words = Inr (row_normalize M) \<and>
       (\<forall>i<vocab_size words. list_all (\<lambda>c. c = 0) (M ! i) \<longrightarrow>
          row_normalize M ! i = replicate (vocab_size words) NaN \<and>
          (\<forall>c. script draw words g c \<and> status c = Running \<and> sampled_index c = i \<longrightarrow>
             script draw words g (c\<lparr>status := Raised RuntimeError\<rparr>)))"
proof -
  from bigram_counts_square obtain M where
    M: "bigram_counts words = Inr M" "square (vocab_size words) M"
    by blast
  from M(1) have P: "normalized_bigram_counts words = Inr (row_normalize M)"
    by (simp add: normalized_bigram_counts_def)
  have V: "0 < vocab_size words"
    by (simp add: vocab_size_def)
  have rows: "row_normalize M ! i = replicate (vocab_size words) NaN \<and>
      (\<forall>c. script draw words g c \<and> status c = Running \<and> sampled_index c = i \<longrightarrow>
         script draw words g (c\<lparr>status := Raised RuntimeError\<rparr>))"
    if i: "i < vocab_size words" and zero: "list_all (\<lambda>c. c = 0) (M ! i)" for i
  proof -
    from M(2) i have len: "i < length M" and "length (M ! i) = vocab_size words"
      by (simp_all add: square_def square_row)
    with zero have nan: "row_normalize M ! i = replicate (vocab_size words) NaN"
      using row_normalize_zero_row [of i M] by simp
    have "script draw words g (c\<lparr>status := Raised RuntimeError\<rparr>)"
      if c: "script draw words g c" "status c = Running" "sampled_index c = i" for c
    proof -
      from c(1) P have "(iteration draw (row_normalize M) (itos words))\<^sup>*\<^sup>* (start g) c"
        by (simp add: script_def)
      moreover from len c(3) have "sampled_index c < length (row_normalize M)"
        by (simp add: length_row_normalize)
      moreover from nan c(3)
      have "row_normalize M ! sampled_index c = replicate (vocab_size words) NaN"
        by simp
      ultimately have "(iteration draw (row_normalize M) (itos words))\<^sup>*\<^sup>* (start g)
          (c\<lparr>status := Raised RuntimeError\<rparr>)"
        using c(2) V by (intro nan_row_refused)
      with P show ?thesis
        by (simp add: script_def)
    qed
    with nan show ?thesis
      by blast
  qed
  with M(1) P show ?thesis
    by blast
qed

theorem zero_row_becomes_nan_row_witness:
  "vocab_size [] = 1 \<and>
   bigram_counts [] = Inr [[0]] \<and>
   row_normalize [[0]] ! 0 = [NaN] \<and>
   script replay [] [] (start []) \<and>
   status (start ([] :: nat list)) = Running \<and>
   sampled_index (start ([] :: nat list)) = 0 \<and>
   script replay [] [] ((start [])\<lparr>status := Raised RuntimeError\<rparr>)"
proof -
  let ?words = "[] :: corpus"
  have V: "vocab_size ?words = 1"
    by code_simp
  have counts: "bigram_counts ?words = Inr [[0]]"
    by code_simp
  from zero_row_becomes_nan_row [of ?words replay "[]"] obtain M where
    M: "bigram_counts ?words = Inr M" and
    P: "normalized_bigram_counts ?words = Inr (row_normalize M)" and
    rows: "\<forall>i<vocab_size ?words. list_all (\<lambda>c. c = 0) (M ! i) \<longrightarrow>
             row_normalize M ! i = replicate (vocab_size ?words) NaN \<and>
             (\<forall>c. script replay ?words [] c \<and> status c = Running \<and> sampled_index c = i \<longrightarrow>
                script replay ?words [] (c\<lparr>status := Raised RuntimeError\<rparr>))"
    by blast
  from M counts have eq: "M = [[0]]"
    by simp
  have "0 < vocab_size ?words"
    by (simp add: V)
  moreover have "list_all (\<lambda>c. c = 0) (M ! 0)"
    by (simp add: eq)
  ultimately have row: "row_normalize M ! 0 = replicate (vocab_size ?words) NaN"
    and raise: "\<forall>c. script replay ?words [] c \<and> status c = Running \<and> sampled_index c = 0 \<longrightarrow>
      script replay ?words [] (c\<lparr>status := Raised RuntimeError\<rparr>)"
    using rows by blast+
  from row have nan: "row_normalize [[0]] ! 0 = [NaN]"
    unfolding eq V by simp
  have started: "script replay ?words [] (start [])"
    using P by (simp add: script_def)
  have running: "status (start ([] :: nat list)) = Running"
    and first: "sampled_index (start ([] :: nat list)) = 0"
    by (simp_all add: start_def)
  from raise started running first
  have "script replay ?words [] ((start [])\<lparr>status := Raised RuntimeError\<rparr>)"
    by blast
  with V counts nan started running first show ?thesis
    by blast
qed

text \<open>
  C3, as the claim states it, fails on the corpus without a token. The boundary symbol
  is then never a predecessor, the one row of the count matrix sums to 0, and step 5
  returns the matrix whose one cell is NaN: no exception, no uniform row.
\<close>

theorem zero_row_counterexample: "normalized_bigram_counts [] = Inr [[NaN]]"
  by code_simp

text \<open>
  C4 (as amended). For the corpus without a token nothing is raised in steps 2 to 5:
  \<open>characters\<close> is empty, \<open>vocab_size\<close> is 1, \<open>stoi\<close> and \<open>itos\<close> hold the boundary
  symbol alone, the count matrix is the 1 by 1 zero matrix and the probability matrix the
  1 by 1 matrix of NaN. The run ends in the first pass of the sampling loop, with the
  RuntimeError of \<^verbatim>\<open>torch.multinomial\<close> and nothing printed.
\<close>

theorem empty_corpus_builds:
  "characters [] = [] \<and> vocab_size [] = 1 \<and> stoi [] = [(caret, 0)] \<and>
   itos [] = [(0, caret)] \<and> bigram_counts [] = Inr [[0]] \<and>
   normalized_bigram_counts [] = Inr [[NaN]] \<and>
   script draw [] g ((start g)\<lparr>status := Raised RuntimeError\<rparr>)"
proof -
  have P: "normalized_bigram_counts [] = Inr [[NaN]]"
    by code_simp
  have "iteration draw [[NaN]] (itos []) (start g) ((start g)\<lparr>status := Raised RuntimeError\<rparr>)"
    by (rule iteration.refused) (simp_all add: start_def multinomial_def)
  then have "script draw [] g ((start g)\<lparr>status := Raised RuntimeError\<rparr>)"
    by (simp add: script_def P)
  moreover have "characters [] = []" and "vocab_size [] = 1" and "stoi [] = [(caret, 0)]"
    and "itos [] = [(0, caret)]" and "bigram_counts [] = Inr [[0]]"
    by code_simp+
  ultimately show ?thesis
    using P by simp
qed

text \<open>
  C4, as the claim states it, fails: for the corpus without a token the vocabulary is
  built and both matrices are produced, neither step raises.
\<close>

theorem empty_corpus_counterexample:
  "vocab_size [] = 1 \<and> \<not> isl (bigram_counts []) \<and> \<not> isl (normalized_bigram_counts [])"
proof -
  have "vocab_size [] = 1" and "bigram_counts [] = Inr [[0]]"
    and "normalized_bigram_counts [] = Inr [[NaN]]"
    by code_simp+
  then show ?thesis by simp
qed

text \<open>
  C5 (as amended). For every corpus in which the character \<^verbatim>\<open>'^'\<close> does not occur,
  \<open>stoi\<close> is a bijection from the boundary symbol and the characters of the corpus onto
  the indices from 0 up to, not including, \<open>vocab_size\<close>, which is the number of
  different characters plus 1; the boundary symbol has index 0 and no character of the
  corpus has.
\<close>

theorem stoi_bijection:
  assumes "caret \<notin> set (concat words)"
  shows "stoi_bijective words \<and>
         dom (map_of (stoi words)) = insert caret (set (concat words)) \<and>
         vocab_size words = card (set (concat words)) + 1 \<and>
         map_of (stoi words) caret = Some 0 \<and>
         (\<forall>s\<in>set (concat words). map_of (stoi words) s \<noteq> Some 0)"
proof -
  have bij: "stoi_bijective words"
    unfolding stoi_bijective_def dom_stoi using assms by (rule stoi_bij_betw)
  have nonzero: "map_of (stoi words) s \<noteq> Some 0" if "s \<in> set (concat words)" for s
  proof
    assume "map_of (stoi words) s = Some 0"
    moreover from that assms have "s \<noteq> caret" by blast
    ultimately show False
      using stoi_pos by blast
  qed
  from bij dom_stoi [of words] vocab_size_card [of words] stoi_caret [of words] nonzero
  show ?thesis
    by blast
qed

theorem stoi_bijection_witness:
  "caret \<notin> set (concat [py_str ''emma'', py_str ''ava'']) \<and>
   stoi_bijective [py_str ''emma'', py_str ''ava''] \<and>
   vocab_size [py_str ''emma'', py_str ''ava''] = 5 \<and>
   map_of (stoi [py_str ''emma'', py_str ''ava'']) caret = Some 0 \<and>
   map_of (stoi [py_str ''emma'', py_str ''ava'']) 97 \<noteq> Some 0"
proof -
  let ?words = "[py_str ''emma'', py_str ''ava'']"
  have chars: "set (concat ?words) = {101, 109, 97, 118}"
    by (auto simp: py_str_def)
  then have free: "caret \<notin> set (concat ?words)"
    by (simp add: caret_def)
  have V: "vocab_size ?words = 5"
    by code_simp
  from stoi_bijection [OF free] have bij: "stoi_bijective ?words"
    and zero: "map_of (stoi ?words) caret = Some 0"
    and nonzero: "\<forall>s\<in>set (concat ?words). map_of (stoi ?words) s \<noteq> Some 0"
    by blast+
  from chars have "97 \<in> set (concat ?words)"
    by blast
  with nonzero have "map_of (stoi ?words) 97 \<noteq> Some 0"
    by blast
  with free bij V zero show ?thesis
    by blast
qed

text \<open>
  C5, as the claim states it, fails on a corpus in which \<^verbatim>\<open>'^'\<close> occurs. For the one
  name "^" the comprehension gives \<^verbatim>\<open>'^'\<close> the index 1, the assignment
  \<^verbatim>\<open>stoi['^'] = 0\<close> overwrites it, and \<open>stoi\<close> is left with one key while
  \<open>vocab_size\<close> is 2: no key has index 1, and the character of the corpus shares the
  index of the boundary symbol.
\<close>

theorem stoi_bijection_counterexample:
  "stoi [py_str ''^''] = [(caret, 0)] \<and> vocab_size [py_str ''^''] = 2 \<and>
   \<not> stoi_bijective [py_str ''^'']"
proof -
  let ?words = "[py_str ''^'']"
  let ?f = "\<lambda>s. the (map_of (stoi ?words) s)"
  have st: "stoi ?words = [(caret, 0)]"
    by code_simp
  have V: "vocab_size ?words = 2"
    by code_simp
  have keys: "dom (map_of (stoi ?words)) = {caret}"
    unfolding st by simp
  have zero: "?f caret = 0"
    unfolding st by simp
  have "\<not> stoi_bijective ?words"
  proof
    assume "stoi_bijective ?words"
    then have "?f ` dom (map_of (stoi ?words)) = {0..<vocab_size ?words}"
      unfolding stoi_bijective_def by (rule bij_betw_imp_surj_on)
    then have image: "{?f caret} = {0..<vocab_size ?words}"
      unfolding keys by simp
    have "1 \<in> {0..<vocab_size ?words}"
      unfolding V by simp
    with image have "1 = ?f caret"
      by blast
    with zero show False
      by simp
  qed
  with st V show ?thesis
    by blast
qed

text \<open>
  C6. For the corpus whose one name is "ab", the indices are boundary 0, a 1, b 2, and
  the count matrix holds 1 in the cells boundary to a, a to b and b to boundary, and 0 in
  the six other cells.
\<close>

theorem bigram_counts_ab:
  "stoi [py_str ''ab''] = [(97, 1), (98, 2), (caret, 0)] \<and>
   bigram_counts [py_str ''ab''] = Inr [[0, 1, 0], [0, 0, 1], [1, 0, 0]]"
  by code_simp

text \<open>
  C7. For the corpus whose one name is the empty string, counting raises nothing; the
  matrix is 1 by 1, and its one cell, boundary to boundary, holds 1.
\<close>

theorem bigram_counts_empty_name:
  "vocab_size [[]] = 1 \<and> bigram_counts [[]] = Inr [[1]]"
  by code_simp



text \<open>
  C9. The sampling loop adds no choice of its own to the draws of the generator: for a
  given corpus and a given state of the generator at the start, any two runs that have
  left the loop have left it in the same configuration. They printed the same
  characters, and they left the generator in the same state, so they consumed the same
  draws.
\<close>

theorem script_deterministic:
  assumes "script draw words g c1" and "script draw words g c2"
    and "status c1 \<noteq> Running" and "status c2 \<noteq> Running"
  shows "c1 = c2"
proof (cases "normalized_bigram_counts words")
  case (Inl e)
  with assms(1,2) show ?thesis
    by (simp add: script_def)
next
  case (Inr P)
  with assms(1,2) have "(iteration draw P (itos words))\<^sup>*\<^sup>* (start g) c1"
    and "(iteration draw P (itos words))\<^sup>*\<^sup>* (start g) c2"
    by (simp_all add: script_def)
  with assms(3,4) show ?thesis
    using iterations_unique by blast
qed

theorem script_deterministic_witness:
  "script replay [py_str ''al''] [1, 2, 0]
     \<lparr>sampled_index = 0, generator = [], stdout = [97, 108, 10], status = Halted\<rparr> \<and>
   status \<lparr>sampled_index = 0, generator = [] :: nat list, stdout = [97, 108, 10],
     status = Halted\<rparr> \<noteq> Running \<and>
   \<lparr>sampled_index = 0, generator = [] :: nat list, stdout = [97, 108, 10], status = Halted\<rparr> =
     (start [1, 2, 0])\<lparr>generator := [], stdout := [97, 108, 10], status := Halted\<rparr>"
proof -
  let ?c = "\<lparr>sampled_index = 0, generator = [] :: nat list, stdout = [97, 108, 10],
    status = Halted\<rparr>"
  let ?c' = "(start [1, 2, 0 :: nat])\<lparr>generator := [], stdout := [97, 108, 10],
    status := Halted\<rparr>"
  have again: "script replay [py_str ''al''] [1, 2, 0] ?c'"
    using run_al by (simp add: start_def)
  have left: "status ?c \<noteq> Running" and left': "status ?c' \<noteq> Running"
    by simp_all
  from script_deterministic [OF run_al again left left'] run_al left show ?thesis
    by blast
qed

text \<open>
  C10 (as amended). For every corpus with fewer than \<open>2 ^ 31\<close> pairs in all, that is
  with the sum over the names of length plus 1 below \<open>2 ^ 31\<close>, counting raises
  nothing and the cells of the count matrix sum to that number.
\<close>

theorem cells_total_is_bigram_total:
  assumes "bigram_total words < 2 ^ 31"
  shows "\<exists>M. bigram_counts words = Inr M \<and> cells_total M = int (bigram_total words)"
proof -
  from bigram_counts_square obtain M where M: "bigram_counts words = Inr M"
    by blast
  let ?Z = "zeros (vocab_size words) (vocab_size words)"
  from assms have "cells_total ?Z + int (bigram_total words) < 2 ^ 31"
    by (simp add: cells_total_zeros)
  with M have "cells_total M = cells_total ?Z + int (bigram_total words)"
    using count_names_total [of "stoi words" words ?Z M]
    by (simp add: bigram_counts_def nonneg_zeros)
  with M show ?thesis
    by (simp add: cells_total_zeros)
qed

theorem cells_total_is_bigram_total_witness:
  "bigram_total [py_str ''emma'', py_str ''ava''] < 2 ^ 31 \<and>
   bigram_total [py_str ''emma'', py_str ''ava''] = 9 \<and>
   (\<exists>M. bigram_counts [py_str ''emma'', py_str ''ava''] = Inr M \<and> cells_total M = 9)"
proof -
  have n: "bigram_total [py_str ''emma'', py_str ''ava''] = 9"
    by (simp add: bigram_total_def py_str_def)
  then have "bigram_total [py_str ''emma'', py_str ''ava''] < 2 ^ 31"
    by simp
  from cells_total_is_bigram_total [OF this] n show ?thesis
    by simp
qed

text \<open>
  C10, as the claim states it, fails once a cell overflows. A corpus of \<open>2 ^ 31\<close> empty
  names increments the one cell \<open>2 ^ 31\<close> times; the 32-bit cell wraps around to
  \<open>- 2 ^ 31\<close>, which is then the sum of all cells, while the names contribute
  \<open>2 ^ 31\<close> pairs.
\<close>

theorem cells_total_counterexample:
  "bigram_counts (replicate (2 ^ 31) []) = Inr [[2 ^ 31]] \<and>
   cells_total [[2 ^ 31]] = - (2 ^ 31) \<and>
   int (bigram_total (replicate (2 ^ 31) [])) = 2 ^ 31"
proof -
  have cell: "(of_nat (2 ^ 31) :: int32) = 2 ^ 31"
    by simp
  have "bigram_counts (replicate (2 ^ 31) []) = Inr [[of_nat (2 ^ 31)]]"
    by (rule bigram_counts_empty_names)
  then have counts: "bigram_counts (replicate (2 ^ 31) []) = Inr [[2 ^ 31]]"
    unfolding cell .
  have "sint (2 ^ 31 :: int32) = - (2 ^ 31)"
    by simp
  then have total: "cells_total [[2 ^ 31]] = - (2 ^ 31)"
    by (simp add: cells_total_def)
  have pairs: "int (bigram_total (replicate (2 ^ 31) [])) = 2 ^ 31"
    unfolding bigram_total_empty_names by simp
  from counts total pairs show ?thesis
    by (intro conjI)
qed

end
